theory Spec2Isabelle
  imports Main "HOL-Library.AList"
begin

section \<open>JSON values and HTTP responses\<close>

text \<open>
  The gateway answers with JSON bodies (\<^verbatim>\<open>res.json\<close>) and sets numeric headers
  (\<^verbatim>\<open>res.setHeader\<close>). A response is its status code, the headers set so far, in
  order, and its body. The value of a header is a JavaScript number, and arithmetic on
  \<^verbatim>\<open>undefined\<close> makes it \<^verbatim>\<open>NaN\<close>.
\<close>

datatype json = JString string | JNumber int | JObject "(string \<times> json) list"

datatype number = Num int | NaN

record response =
  status :: nat
  headers :: "(string \<times> number) list"
  body :: json

section \<open>The Redis store\<close>

text \<open>
  Only the commands the limiters issue are modelled. A sorted set is the list of its
  (member, score) pairs; \<^verbatim>\<open>ZADD\<close> on a member that is already present replaces its
  score and adds nothing, so members stay distinct. A key that holds no sorted set is
  the empty list, a key that holds no counter is 0 (\<^verbatim>\<open>INCR\<close> starts from 0).
  \<^verbatim>\<open>EXPIRE\<close> is recorded as the time to live it sets, in seconds; at both call sites
  the key exists. The deletion of a key whose time to live has run out happens in the
  server between requests and is not part of any handler: the results below about
  several requests are about requests between which no key has expired.
  \<open>link\<close> says how commands sent through the client end. \<open>Up\<close>: each command
  is carried out and answered. \<open>Failing\<close>: no command is carried out and each is
  answered with an error; the promise of a single command rejects, and
  \<^verbatim>\<open>pipeline.exec()\<close> resolves with one \<^verbatim>\<open>[err, undefined]\<close> pair per command.
  \<open>Throwing\<close>: no command is carried out, the promise of a single command rejects
  and \<^verbatim>\<open>pipeline.exec()\<close> itself rejects.
\<close>

datatype link = Up | Failing | Throwing

type_synonym zset = "(string \<times> int) list"

record redis =
  link :: link
  zsets :: "string \<Rightarrow> zset"
  counters :: "string \<Rightarrow> int"
  ttl :: "string \<Rightarrow> int option"

definition zadd :: "string \<Rightarrow> int \<Rightarrow> string \<Rightarrow> redis \<Rightarrow> redis" where
  "zadd key score member r =
     r\<lparr>zsets := (zsets r)(key := AList.update member score (zsets r key))\<rparr>"

definition zremrangebyscore :: "string \<Rightarrow> int \<Rightarrow> int \<Rightarrow> redis \<Rightarrow> redis" where
  "zremrangebyscore key lo hi r =
     r\<lparr>zsets := (zsets r)(key := filter (\<lambda>(m, s). \<not> (lo \<le> s \<and> s \<le> hi)) (zsets r key))\<rparr>"

definition zcard :: "string \<Rightarrow> redis \<Rightarrow> int" where
  "zcard key r = int (length (zsets r key))"

definition expire :: "string \<Rightarrow> int \<Rightarrow> redis \<Rightarrow> redis" where
  "expire key seconds r = r\<lparr>ttl := (ttl r)(key := Some seconds)\<rparr>"

definition incr :: "string \<Rightarrow> redis \<Rightarrow> int \<times> redis" where
  "incr key r =
     (let n = counters r key + 1 in (n, r\<lparr>counters := (counters r)(key := n)\<rparr>))"

section \<open>Template literals\<close>

text \<open>
  \<^verbatim>\<open>`${now}`\<close> renders an integral number in decimal, with a minus sign when it is
  negative.
\<close>

definition digit :: "nat \<Rightarrow> char" where
  "digit d = ''0123456789'' ! d"

fun digits :: "nat \<Rightarrow> string" where
  "digits n = (if n < 10 then [digit n] else digits (n div 10) @ [digit (n mod 10)])"

declare digits.simps [simp del]

definition template :: "int \<Rightarrow> string" where
  "template i = (if i < 0 then CHR ''-'' # digits (nat (- i)) else digits (nat i))"

section \<open>Sliding-window limiter (slidingRateLimiter.ts)\<close>

definition WINDOW_MS :: int where
  "WINDOW_MS = 60000"

definition MAX_REQUESTS :: int where
  "MAX_REQUESTS = 5"

text \<open>
  A middleware either sends a response, and the route is not run, or calls
  \<^verbatim>\<open>next()\<close>, and the headers it has set stay on the response object.
\<close>

datatype mw = Sent response | Next "(string \<times> number) list"

text \<open>The key of a client in the store: \<^verbatim>\<open>`rate:sw:${ip}`\<close>.\<close>

definition sliding_key :: "string \<Rightarrow> string" where
  "sliding_key a = ''rate:sw:'' @ a"

text \<open>
  \<open>slidingRateLimiter now ip r\<close>: \<open>now\<close> is what \<^verbatim>\<open>Date.now()\<close> returned, \<open>ip\<close>
  is \<^verbatim>\<open>req.ip\<close>. The result is what the middleware did, the lines it wrote to the
  console, and the store afterwards. The four commands of the pipeline run in order
  with no other command between them. \<open>requestCount\<close> is \<^verbatim>\<open>results?.[2]?.[1]\<close>: the
  reply of the third command, or \<^verbatim>\<open>undefined\<close> (\<open>None\<close>) when that reply is an
  error pair. With \<^verbatim>\<open>undefined\<close>, \<^verbatim>\<open>Math.max(0, MAX_REQUESTS - requestCount)\<close> is
  \<^verbatim>\<open>NaN\<close> and \<^verbatim>\<open>requestCount > MAX_REQUESTS\<close> is false. Only an \<^verbatim>\<open>exec()\<close> that
  rejects reaches the catch block.
  \<^verbatim>\<open>Math.ceil(WINDOW_MS / 1000)\<close> is written as a division rounded up.
\<close>

definition slidingRateLimiter :: "int \<Rightarrow> string \<Rightarrow> redis \<Rightarrow> mw \<times> string list \<times> redis" where
  "slidingRateLimiter now ip r =
     (let key = sliding_key ip in
      if link r = Throwing
      then (Next [], [''Sliding limiter degraded, allowing request''], r)
      else
        let (requestCount, r') =
              (if link r = Up
               then
                 let r1 = zadd key now (template now) r;
                     r2 = zremrangebyscore key 0 (now - WINDOW_MS) r1;
                     count = zcard key r2;
                     r3 = expire key (- ((- WINDOW_MS) div 1000)) r2
                 in (Some count, r3)
               else (None, r));
            hdrs = [(''X-RateLimit-Limit'', Num MAX_REQUESTS),
                    (''X-RateLimit-Remaining'',
                       (case requestCount of
                          Some count \<Rightarrow> Num (max 0 (MAX_REQUESTS - count))
                        | None \<Rightarrow> NaN))]
        in if (case requestCount of Some count \<Rightarrow> count > MAX_REQUESTS | None \<Rightarrow> False)
           then (Sent \<lparr>status = 429, headers = hdrs,
                       body = JObject [(''error'', JString ''Too many requests (sliding window)''),
                                       (''retryAfterMs'', JNumber WINDOW_MS)]\<rparr>, [], r')
           else (Next hdrs, [], r'))"

section \<open>Fixed-window limiter (rateLimiter.ts)\<close>

definition WINDOW_SECONDS :: int where
  "WINDOW_SECONDS = 60"

text \<open>
  The fixed-window variant has the same \<open>MAX_REQUESTS = 5\<close>. It counts with
  \<^verbatim>\<open>INCR\<close> and starts the key's time to live at the first request of a window.
  Its commands are awaited one by one, so a command that fails throws into the catch
  block.
\<close>

definition fixed_key :: "string \<Rightarrow> string" where
  "fixed_key a = ''rate:'' @ a"

definition rateLimiter :: "string \<Rightarrow> redis \<Rightarrow> mw \<times> string list \<times> redis" where
  "rateLimiter ip r =
     (let key = fixed_key ip in
      if link r \<noteq> Up
      then (Next [], [''Rate limiter degraded, allowing request''], r)
      else
        let (currentCount, r1) = incr key r;
            r2 = (if currentCount = 1 then expire key WINDOW_SECONDS r1 else r1);
            hdrs = [(''X-RateLimit-Limit'', Num MAX_REQUESTS),
                    (''X-RateLimit-Remaining'', Num (max 0 (MAX_REQUESTS - currentCount))),
                    (''Retry-After'', Num WINDOW_SECONDS)]
        in if currentCount > MAX_REQUESTS
           then (Sent \<lparr>status = 429, headers = hdrs,
                       body = JObject [(''error'', JString ''Too many requests''),
                                       (''retryAfterSeconds'', JNumber WINDOW_SECONDS)]\<rparr>, [], r2)
           else (Next hdrs, [], r2))"

section \<open>The downstream call with one retry (callSlowServiceWithRetry)\<close>

text \<open>
  \<^verbatim>\<open>axios.get\<close> with a timeout resolves with the response or rejects: the timeout
  ran out, the connection failed, or the status is outside 2xx. The slow service is
  outside the gateway, so its behaviour is a parameter: \<open>upstream k\<close> is how the
  \<open>k\<close>-th request ever sent to it ends. \<open>attempts\<close> counts the requests sent,
  \<open>slept\<close> lists the delays waited with \<^verbatim>\<open>setTimeout\<close>, in milliseconds, and
  \<open>console\<close> the lines logged.
\<close>

datatype axios_error = Timeout | NetworkError | BadStatus nat

record env =
  upstream :: "nat \<Rightarrow> axios_error + json"
  attempts :: nat
  slept :: "nat list"
  console :: "string list"

definition axios_get :: "env \<Rightarrow> (axios_error + json) \<times> env" where
  "axios_get e = (upstream e (attempts e), e\<lparr>attempts := attempts e + 1\<rparr>)"

definition log :: "string \<Rightarrow> env \<Rightarrow> env" where
  "log line e = e\<lparr>console := console e @ [line]\<rparr>"

definition sleep :: "nat \<Rightarrow> env \<Rightarrow> env" where
  "sleep ms e = e\<lparr>slept := slept e @ [ms]\<rparr>"

definition callSlowServiceWithRetry :: "env \<Rightarrow> (axios_error + json) \<times> env" where
  "callSlowServiceWithRetry e =
     (case axios_get e of
        (Inr response, e1) \<Rightarrow> (Inr response, e1)
      | (Inl err, e1) \<Rightarrow>
          axios_get (sleep 1000 (log ''First attempt failed, retrying once...'' e1)))"

section \<open>The circuit breaker and the routes (index.ts)\<close>

text \<open>
  The breaker is the three module variables. The handlers are modelled one request at
  a time: a request runs to its response before the next one starts.
\<close>

record breaker =
  failureCount :: nat
  circuitOpen :: bool
  lastFailureTime :: int

definition initial_breaker :: breaker where
  "initial_breaker = \<lparr>failureCount = 0, circuitOpen = False, lastFailureTime = 0\<rparr>"

definition FAILURE_THRESHOLD :: nat where
  "FAILURE_THRESHOLD = 3"

definition OPEN_TIMEOUT_MS :: int where
  "OPEN_TIMEOUT_MS = 10000"

definition health :: "(string \<times> number) list \<Rightarrow> response" where
  "health hdrs = \<lparr>status = 200, headers = hdrs, body = JObject [(''status'', JString ''gateway-up'')]\<rparr>"

definition circuit_open_response :: "(string \<times> number) list \<Rightarrow> response" where
  "circuit_open_response hdrs =
     \<lparr>status = 503, headers = hdrs,
      body = JObject [(''error'', JString ''Circuit open. Service temporarily unavailable.'')]\<rparr>"

text \<open>
  \<open>call_slow now hdrs (b, e)\<close> is the handler of \<^verbatim>\<open>GET /call-slow\<close>; \<open>now\<close> is
  what \<^verbatim>\<open>Date.now()\<close> returned at its start and \<open>hdrs\<close> the headers already set.
\<close>

definition call_slow :: "int \<Rightarrow> (string \<times> number) list \<Rightarrow> breaker \<times> env \<Rightarrow> response \<times> breaker \<times> env" where
  "call_slow now hdrs s =
     (let (b, e) = s in
      if circuitOpen b \<and> now - lastFailureTime b < OPEN_TIMEOUT_MS
      then (circuit_open_response hdrs, b, e)
      else
        let (b1, e1) = (if circuitOpen b
                        then (b\<lparr>circuitOpen := False, failureCount := 0\<rparr>,
                              log ''Circuit half-open: testing dependency'' e)
                        else (b, e))
        in case callSlowServiceWithRetry e1 of
             (Inr data, e2) \<Rightarrow>
               (\<lparr>status = 200, headers = hdrs, body = data\<rparr>, b1\<lparr>failureCount := 0\<rparr>, e2)
           | (Inl err, e2) \<Rightarrow>
               let b2 = b1\<lparr>failureCount := failureCount b1 + 1, lastFailureTime := now\<rparr>;
                   e3 = log (''Failure count: '' @ digits (failureCount b2)) e2;
                   (b3, e4) = (if failureCount b2 \<ge> FAILURE_THRESHOLD
                               then (b2\<lparr>circuitOpen := True\<rparr>,
                                     log ''Circuit opened to protect system'' e3)
                               else (b2, e3))
               in (\<lparr>status = 504, headers = hdrs,
                    body = JObject [(''error'', JString ''Upstream failure'')]\<rparr>, b3, e4))"

section \<open>The application: limiter first, then the route\<close>

text \<open>
  \<^verbatim>\<open>app.use(slidingRateLimiter)\<close> is registered before every route, so each request
  goes through the limiter and reaches its route only when the limiter calls
  \<^verbatim>\<open>next()\<close>. The routes the results are about are \<^verbatim>\<open>/health\<close> and
  \<^verbatim>\<open>/call-slow\<close>. A request carries the address of the client, its route, and the
  two readings of the clock made while it is handled: \<open>at_limiter\<close> in the
  middleware and \<open>at_route\<close> in the handler.
\<close>

datatype route = Health | CallSlow

record request =
  ip :: string
  path :: route
  at_limiter :: int
  at_route :: int

record gateway =
  store :: redis
  breaker_state :: breaker
  world :: env

definition dispatch :: "request \<Rightarrow> (string \<times> number) list \<Rightarrow> gateway \<Rightarrow> response \<times> gateway" where
  "dispatch req hdrs g =
     (case path req of
        Health \<Rightarrow> (health hdrs, g)
      | CallSlow \<Rightarrow>
          (let (res, b, e) = call_slow (at_route req) hdrs (breaker_state g, world g)
           in (res, g\<lparr>breaker_state := b, world := e\<rparr>)))"

definition app :: "request \<Rightarrow> gateway \<Rightarrow> response \<times> gateway" where
  "app req g =
     (let (m, lines, r) = slidingRateLimiter (at_limiter req) (ip req) (store g);
          g1 = g\<lparr>store := r, world := (world g)\<lparr>console := console (world g) @ lines\<rparr>\<rparr>
      in case m of
           Sent res \<Rightarrow> (res, g1)
         | Next hdrs \<Rightarrow> dispatch req hdrs g1)"

section \<open>Runs of several requests, and concrete states\<close>

text \<open>
  \<open>sliding_run\<close>, \<open>fixed_run\<close> and \<open>serve\<close> handle requests one after the
  other, each on the state the previous one left, and collect what was answered.
\<close>

fun sliding_run :: "int list \<Rightarrow> string \<Rightarrow> redis \<Rightarrow> mw list \<times> redis" where
  "sliding_run [] a r = ([], r)"
| "sliding_run (now # ts) a r =
     (let (m, lines, r1) = slidingRateLimiter now a r;
          (ms, r2) = sliding_run ts a r1
      in (m # ms, r2))"

fun fixed_run :: "nat \<Rightarrow> string \<Rightarrow> redis \<Rightarrow> mw list \<times> redis" where
  "fixed_run 0 a r = ([], r)"
| "fixed_run (Suc n) a r =
     (let (m, lines, r1) = rateLimiter a r;
          (ms, r2) = fixed_run n a r1
      in (m # ms, r2))"

fun serve :: "request list \<Rightarrow> gateway \<Rightarrow> response list \<times> gateway" where
  "serve [] g = ([], g)"
| "serve (req # reqs) g =
     (let (res, g1) = app req g;
          (ress, g2) = serve reqs g1
      in (res # ress, g2))"

definition rejected :: "mw \<Rightarrow> bool" where
  "rejected m = (case m of Sent res \<Rightarrow> status res = 429 | Next hdrs \<Rightarrow> False)"

definition empty_store :: redis where
  "empty_store = \<lparr>link = Up, zsets = (\<lambda>k. []), counters = (\<lambda>k. 0), ttl = (\<lambda>k. None)\<rparr>"

definition failing_store :: redis where
  "failing_store = empty_store\<lparr>link := Failing\<rparr>"

definition always :: "axios_error + json \<Rightarrow> env" where
  "always outcome = \<lparr>upstream = (\<lambda>k. outcome), attempts = 0, slept = [], console = []\<rparr>"

definition slow_response :: json where
  "slow_response = JObject [(''status'', JString ''slow response''), (''delay'', JNumber 800)]"

definition fresh_gateway :: "env \<Rightarrow> gateway" where
  "fresh_gateway e = \<lparr>store = empty_store, breaker_state = initial_breaker, world = e\<rparr>"

text \<open>
  \<open>recorded_count now a r\<close> is the reply of \<^verbatim>\<open>ZCARD\<close> in the pipeline of a request of
  client \<open>a\<close> at \<open>now\<close> on store \<open>r\<close>; \<open>aged_out now entry\<close> says that
  \<^verbatim>\<open>ZREMRANGEBYSCORE key 0 (now - WINDOW_MS)\<close> removes the entry.
\<close>

definition recorded_count :: "int \<Rightarrow> string \<Rightarrow> redis \<Rightarrow> int" where
  "recorded_count now a r =
     (let key = sliding_key a
      in zcard key (zremrangebyscore key 0 (now - WINDOW_MS) (zadd key now (template now) r)))"

definition aged_out :: "int \<Rightarrow> string \<times> int \<Rightarrow> bool" where
  "aged_out now entry = (0 \<le> snd entry \<and> snd entry \<le> now - WINDOW_MS)"

text \<open>The entry that a request at \<open>t\<close> puts into the sorted set: member and score.\<close>

definition entry_of :: "int \<Rightarrow> string \<times> int" where
  "entry_of t = (template t, t)"

text \<open>
  A slow service that fails the first request and answers the later ones, and the
  states of a breaker that starts closed and sees the service time out in three calls
  in a row, at 1000, 2000 and 3000 ms.
\<close>

definition fails_once :: env where
  "fails_once = \<lparr>upstream = (\<lambda>k. if k = 0 then Inl Timeout else Inr slow_response),
                  attempts = 0, slept = [], console = []\<rparr>"

definition first_failure :: "response \<times> breaker \<times> env" where
  "first_failure = call_slow 1000 [] (initial_breaker, always (Inl Timeout))"

definition second_failure :: "response \<times> breaker \<times> env" where
  "second_failure = call_slow 2000 [] (snd first_failure)"

definition third_failure :: "response \<times> breaker \<times> env" where
  "third_failure = call_slow 3000 [] (snd second_failure)"

definition failed_probe :: "response \<times> breaker \<times> env" where
  "failed_probe = call_slow 13000 [] (snd third_failure)"

definition health_at :: "int \<Rightarrow> request" where
  "health_at t = \<lparr>ip = ''1.2.3.4'', path = Health, at_limiter = t, at_route = t\<rparr>"

definition call_slow_at :: "int \<Rightarrow> request" where
  "call_slow_at t = \<lparr>ip = ''1.2.3.4'', path = CallSlow, at_limiter = t, at_route = t\<rparr>"

text \<open>
  The store after six requests of one client at 1, 2, ..., 6 ms, a gateway on it, and a
  gateway whose store fails.
\<close>

definition six_recorded :: redis where
  "six_recorded = snd (sliding_run [1, 2, 3, 4, 5, 6] ''1.2.3.4'' empty_store)"

definition busy_gateway :: gateway where
  "busy_gateway = \<lparr>store = six_recorded, breaker_state = initial_breaker,
                    world = always (Inr slow_response)\<rparr>"

definition degraded_gateway :: gateway where
  "degraded_gateway = \<lparr>store = failing_store, breaker_state = initial_breaker,
                        world = always (Inr slow_response)\<rparr>"

section \<open>The retry\<close>

lemma first_attempt_succeeds:
  "upstream e (attempts e) = Inr v \<Longrightarrow>
   callSlowServiceWithRetry e = (Inr v, e\<lparr>attempts := attempts e + 1\<rparr>)"
  by (simp add: callSlowServiceWithRetry_def axios_get_def)

lemma first_attempt_fails:
  "upstream e (attempts e) = Inl err \<Longrightarrow>
   callSlowServiceWithRetry e =
     (upstream e (attempts e + 1),
      e\<lparr>attempts := attempts e + 2,
        console := console e @ [''First attempt failed, retrying once...''],
        slept := slept e @ [1000]\<rparr>)"
  by (simp add: callSlowServiceWithRetry_def axios_get_def log_def sleep_def)

lemma retry_invokes:
  "attempts e < attempts (snd (callSlowServiceWithRetry e))"
  by (cases "upstream e (attempts e)") (simp_all add: first_attempt_fails first_attempt_succeeds)

text \<open>
  C8. The operation is invoked at least once and at most twice. When both attempts
  fail, the failure of the second is returned after exactly two invocations; when the
  first fails and the second succeeds, the success is returned after exactly two; when
  the first succeeds there is one invocation. The function is not recursive: there is
  no further retry.
\<close>

theorem at_most_two_attempts:
  "attempts e < attempts (snd (callSlowServiceWithRetry e)) \<and>
   attempts (snd (callSlowServiceWithRetry e)) \<le> attempts e + 2 \<and>
   (upstream e (attempts e) = Inl err1 \<longrightarrow> upstream e (attempts e + 1) = Inl err2 \<longrightarrow>
      fst (callSlowServiceWithRetry e) = Inl err2 \<and>
      attempts (snd (callSlowServiceWithRetry e)) = attempts e + 2) \<and>
   (upstream e (attempts e) = Inl err1 \<longrightarrow> upstream e (attempts e + 1) = Inr v \<longrightarrow>
      fst (callSlowServiceWithRetry e) = Inr v \<and>
      attempts (snd (callSlowServiceWithRetry e)) = attempts e + 2) \<and>
   (upstream e (attempts e) = Inr v \<longrightarrow>
      fst (callSlowServiceWithRetry e) = Inr v \<and>
      attempts (snd (callSlowServiceWithRetry e)) = attempts e + 1)"
proof (cases "upstream e (attempts e)")
  case (Inl err)
  then show ?thesis by (simp add: first_attempt_fails)
next
  case (Inr w)
  then show ?thesis by (simp add: first_attempt_succeeds)
qed

theorem at_most_two_attempts_witness:
  "upstream fails_once (attempts fails_once) = Inl Timeout \<and>
   upstream fails_once (attempts fails_once + 1) = Inr slow_response \<and>
   fst (callSlowServiceWithRetry fails_once) = Inr slow_response \<and>
   attempts (snd (callSlowServiceWithRetry fails_once)) = 2"
  using at_most_two_attempts [of fails_once Timeout Timeout slow_response]
  by (simp add: fails_once_def)

text \<open>
  C4, as the code has it. There is no classification of errors: whatever the error of
  the first attempt, the function logs, waits 1000 ms and invokes the operation a
  second time, and returns what the second attempt returns. Only a first attempt that
  succeeds ends with one invocation and no wait.
\<close>

theorem retry_every_failure_once:
  "(case upstream e (attempts e) of
      Inr v \<Rightarrow> callSlowServiceWithRetry e = (Inr v, e\<lparr>attempts := attempts e + 1\<rparr>)
    | Inl err \<Rightarrow>
        fst (callSlowServiceWithRetry e) = upstream e (attempts e + 1) \<and>
        attempts (snd (callSlowServiceWithRetry e)) = attempts e + 2 \<and>
        slept (snd (callSlowServiceWithRetry e)) = slept e @ [1000])"
  by (simp add: first_attempt_succeeds first_attempt_fails split: sum.split)

theorem retry_every_failure_once_witness:
  "fst (callSlowServiceWithRetry (always (Inl NetworkError))) = Inl NetworkError \<and>
   attempts (snd (callSlowServiceWithRetry (always (Inl NetworkError)))) = 2 \<and>
   slept (snd (callSlowServiceWithRetry (always (Inl NetworkError)))) = [1000]"
  using retry_every_failure_once [of "always (Inl NetworkError)"]
  by (simp add: always_def)

text \<open>
  The first attempt is answered 400 Bad Request, an error that no retry can cure. The
  operation is invoked twice all the same, with the wait between.
\<close>

theorem permanent_error_is_retried:
  "upstream (always (Inl (BadStatus 400))) (attempts (always (Inl (BadStatus 400)))) = Inl (BadStatus 400) \<and>
   attempts (snd (callSlowServiceWithRetry (always (Inl (BadStatus 400))))) = 2 \<and>
   slept (snd (callSlowServiceWithRetry (always (Inl (BadStatus 400))))) = [1000]"
  by (simp add: always_def callSlowServiceWithRetry_def axios_get_def log_def sleep_def)

section \<open>The circuit breaker\<close>

lemma call_slow_open:
  "circuitOpen b \<Longrightarrow> now - lastFailureTime b < OPEN_TIMEOUT_MS \<Longrightarrow>
   call_slow now hdrs (b, e) = (circuit_open_response hdrs, b, e)"
  by (simp add: call_slow_def)

lemma call_slow_through:
  assumes "\<not> (circuitOpen b \<and> now - lastFailureTime b < OPEN_TIMEOUT_MS)"
  shows "attempts e < attempts (snd (snd (call_slow now hdrs (b, e))))"
    and "status (fst (call_slow now hdrs (b, e))) \<noteq> 503"
proof -
  let ?e1 = "if circuitOpen b then log ''Circuit half-open: testing dependency'' e else e"
  have a: "attempts ?e1 = attempts e" by (simp add: log_def)
  have "attempts ?e1 < attempts (snd (callSlowServiceWithRetry ?e1))" by (rule retry_invokes)
  with a assms show "attempts e < attempts (snd (snd (call_slow now hdrs (b, e))))"
    by (auto simp add: call_slow_def Let_def log_def split: prod.splits sum.splits if_splits)
  from assms show "status (fst (call_slow now hdrs (b, e))) \<noteq> 503"
    by (auto simp add: call_slow_def Let_def split: prod.splits sum.splits)
qed

lemma call_slow_closed_failure:
  assumes "\<not> circuitOpen b" and "call_slow now hdrs (b, e) = (res, b', e')" and "status res = 504"
  shows "b' = b\<lparr>failureCount := failureCount b + 1, lastFailureTime := now,
               circuitOpen := (FAILURE_THRESHOLD \<le> failureCount b + 1)\<rparr>"
  using assms
  by (auto simp add: call_slow_def Let_def split: prod.splits sum.splits if_splits)

text \<open>
  What the handler does when the open time has run out and the call it lets through
  fails: the count restarts from 0 before the call, so the failure makes it 1 and the
  breaker is left closed.
\<close>

lemma call_slow_probe_failure:
  assumes "circuitOpen b" and "OPEN_TIMEOUT_MS \<le> now - lastFailureTime b"
    and "call_slow now hdrs (b, e) = (res, b', e')" and "status res = 504"
  shows "b' = \<lparr>failureCount = 1, circuitOpen = False, lastFailureTime = now\<rparr>"
  using assms
  by (auto simp add: call_slow_def Let_def FAILURE_THRESHOLD_def split: prod.splits sum.splits if_splits)

text \<open>
  C5. A breaker that is closed with count 0 handles three calls in a row, each answered
  504 (the operation failed). It is still closed after the first and the second and open
  after the third, with \<open>lastFailureTime\<close> the time of the third. A call that comes
  less than \<open>OPEN_TIMEOUT_MS\<close> after that is answered 503 with the error body
  \<^verbatim>\<open>Circuit open. Service temporarily unavailable.\<close>, with the breaker and the
  environment untouched: the operation is not invoked. A call that comes at or after
  \<open>OPEN_TIMEOUT_MS\<close> invokes the operation and is not answered 503.
\<close>

theorem breaker_opens_after_three_failures:
  assumes closed: "\<not> circuitOpen b0" "failureCount b0 = 0"
    and c1: "call_slow t1 h1 (b0, e0) = (r1, b1, e1)" "status r1 = 504"
    and c2: "call_slow t2 h2 (b1, e1) = (r2, b2, e2)" "status r2 = 504"
    and c3: "call_slow t3 h3 (b2, e2) = (r3, b3, e3)" "status r3 = 504"
  shows "\<not> circuitOpen b1 \<and> \<not> circuitOpen b2 \<and> circuitOpen b3 \<and> lastFailureTime b3 = t3 \<and>
         (now - lastFailureTime b3 < OPEN_TIMEOUT_MS \<longrightarrow>
            call_slow now h (b3, e3) =
              (\<lparr>status = 503, headers = h,
                body = JObject [(''error'', JString ''Circuit open. Service temporarily unavailable.'')]\<rparr>, b3, e3)) \<and>
         (OPEN_TIMEOUT_MS \<le> now - lastFailureTime b3 \<longrightarrow>
            attempts e3 < attempts (snd (snd (call_slow now h (b3, e3)))) \<and>
            status (fst (call_slow now h (b3, e3))) \<noteq> 503)"
proof -
  have b1: "b1 = b0\<lparr>failureCount := 1, lastFailureTime := t1, circuitOpen := False\<rparr>"
    using call_slow_closed_failure [OF closed(1) c1] closed(2) by (simp add: FAILURE_THRESHOLD_def)
  then have o1: "\<not> circuitOpen b1" by simp
  have b2: "b2 = b1\<lparr>failureCount := 2, lastFailureTime := t2, circuitOpen := False\<rparr>"
    using call_slow_closed_failure [OF o1 c2] b1 by (simp add: FAILURE_THRESHOLD_def)
  then have o2: "\<not> circuitOpen b2" by simp
  have b3: "b3 = b2\<lparr>failureCount := 3, lastFailureTime := t3, circuitOpen := True\<rparr>"
    using call_slow_closed_failure [OF o2 c3] b2 by (simp add: FAILURE_THRESHOLD_def)
  then have o3: "circuitOpen b3" and l3: "lastFailureTime b3 = t3" by simp_all
  have rej: "now - lastFailureTime b3 < OPEN_TIMEOUT_MS \<longrightarrow>
            call_slow now h (b3, e3) =
              (\<lparr>status = 503, headers = h,
                body = JObject [(''error'', JString ''Circuit open. Service temporarily unavailable.'')]\<rparr>, b3, e3)"
    using o3 by (simp add: call_slow_open circuit_open_response_def)
  have probe: "OPEN_TIMEOUT_MS \<le> now - lastFailureTime b3 \<longrightarrow>
            attempts e3 < attempts (snd (snd (call_slow now h (b3, e3)))) \<and>
            status (fst (call_slow now h (b3, e3))) \<noteq> 503"
    using call_slow_through [where b = b3 and now = now and e = e3 and hdrs = h] by auto
  from o1 o2 o3 l3 rej probe show ?thesis by blast
qed

theorem breaker_opens_after_three_failures_witness:
  "\<not> circuitOpen initial_breaker \<and> failureCount initial_breaker = 0 \<and>
   status (fst first_failure) = 504 \<and> status (fst second_failure) = 504 \<and>
   status (fst third_failure) = 504 \<and>
   circuitOpen (fst (snd third_failure)) \<and> lastFailureTime (fst (snd third_failure)) = 3000 \<and>
   5000 - lastFailureTime (fst (snd third_failure)) < OPEN_TIMEOUT_MS \<and>
   call_slow 5000 [] (snd third_failure) =
     (\<lparr>status = 503, headers = [],
        body = JObject [(''error'', JString ''Circuit open. Service temporarily unavailable.'')]\<rparr>,
      snd third_failure) \<and>
   OPEN_TIMEOUT_MS \<le> 13000 - lastFailureTime (fst (snd third_failure)) \<and>
   attempts (snd (snd third_failure)) < attempts (snd (snd failed_probe)) \<and>
   status (fst failed_probe) \<noteq> 503"
proof -
  have closed: "\<not> circuitOpen initial_breaker" "failureCount initial_breaker = 0"
    by (simp_all add: initial_breaker_def)
  have c1: "call_slow 1000 [] (initial_breaker, always (Inl Timeout)) =
              (fst first_failure, fst (snd first_failure), snd (snd first_failure))"
    by (simp add: first_failure_def)
  have c2: "call_slow 2000 [] (fst (snd first_failure), snd (snd first_failure)) =
              (fst second_failure, fst (snd second_failure), snd (snd second_failure))"
    by (simp add: second_failure_def)
  have c3: "call_slow 3000 [] (fst (snd second_failure), snd (snd second_failure)) =
              (fst third_failure, fst (snd third_failure), snd (snd third_failure))"
    by (simp add: third_failure_def)
  have s1: "status (fst first_failure) = 504" by code_simp
  have s2: "status (fst second_failure) = 504" by code_simp
  have s3: "status (fst third_failure) = 504" by code_simp
  note early = breaker_opens_after_three_failures [OF closed c1 s1 c2 s2 c3 s3, of 5000 "[]"]
  note late = breaker_opens_after_three_failures [OF closed c1 s1 c2 s2 c3 s3, of 13000 "[]"]
  from early late show ?thesis
    using closed s1 s2 s3 by (simp add: OPEN_TIMEOUT_MS_def failed_probe_def)
qed

text \<open>
  C1, evaluated. The breaker of the three failures above is open since 3000. The call
  at 13000 is let through and fails: it leaves the breaker closed with count 1, and the
  call one millisecond later is passed to the operation (two more requests are sent)
  and answered 504, not 503.
\<close>

theorem failed_probe_leaves_breaker_closed:
  "circuitOpen (fst (snd third_failure)) \<and>
   status (fst failed_probe) = 504 \<and>
   fst (snd failed_probe) = \<lparr>failureCount = 1, circuitOpen = False, lastFailureTime = 13000\<rparr> \<and>
   status (fst (call_slow 13001 [] (snd failed_probe))) = 504 \<and>
   attempts (snd (snd (call_slow 13001 [] (snd failed_probe)))) = attempts (snd (snd failed_probe)) + 2"
  by code_simp

section \<open>Decimal rendering\<close>

text \<open>Different numbers are rendered differently.\<close>

lemma digit_inj: "d < 10 \<Longrightarrow> d' < 10 \<Longrightarrow> digit d = digit d' \<Longrightarrow> d = d'"
proof -
  assume a: "d < 10" "d' < 10" "digit d = digit d'"
  have "distinct ''0123456789''" by simp
  moreover have "d < length ''0123456789''" "d' < length ''0123456789''" using a by simp_all
  ultimately show ?thesis using a(3) unfolding digit_def by (simp only: nth_eq_iff_index_eq)
qed

lemma digits_nonempty: "digits n \<noteq> []"
  by (subst digits.simps) simp

lemma digits_small: "n < 10 \<Longrightarrow> digits n = [digit n]"
  by (subst digits.simps) simp

lemma digits_large: "\<not> n < 10 \<Longrightarrow> digits n = digits (n div 10) @ [digit (n mod 10)]"
  by (subst digits.simps) simp

lemma digits_inj: "digits n = digits m \<Longrightarrow> n = m"
proof (induction n arbitrary: m rule: digits.induct)
  case (1 n)
  show ?case
  proof (cases "n < 10")
    case small_n: True
    show ?thesis
    proof (cases "m < 10")
      case True
      with small_n "1.prems" show ?thesis by (simp add: digits_small digit_inj)
    next
      case False
      with small_n "1.prems" digits_nonempty [of "m div 10"] show ?thesis
        by (simp add: digits_small digits_large)
    qed
  next
    case large_n: False
    show ?thesis
    proof (cases "m < 10")
      case True
      with large_n "1.prems" digits_nonempty [of "n div 10"] show ?thesis
        by (simp add: digits_small digits_large)
    next
      case False
      with large_n "1.prems" have eq: "digits (n div 10) = digits (m div 10)"
        and last: "digit (n mod 10) = digit (m mod 10)"
        by (simp_all add: digits_large)
      from eq have d: "n div 10 = m div 10" by (rule "1.IH" [OF large_n])
      from last have r: "n mod 10 = m mod 10" by (intro digit_inj) simp_all
      from d r show ?thesis by (metis div_mult_mod_eq)
    qed
  qed
qed

lemma digits_no_sign: "CHR ''-'' \<notin> set (digits n)"
proof (induction n rule: digits.induct)
  case (1 n)
  have dg: "\<And>d. d < 10 \<Longrightarrow> digit d \<noteq> CHR ''-''"
  proof -
    fix d :: nat assume "d < 10"
    then have "digit d \<in> set ''0123456789''" unfolding digit_def by (intro nth_mem) simp
    then show "digit d \<noteq> CHR ''-''" by auto
  qed
  show ?case
  proof (cases "n < 10")
    case True
    then show ?thesis using dg [of n] by (simp add: digits_small)
  next
    case False
    then show ?thesis using "1.IH" dg [of "n mod 10"] by (simp add: digits_large)
  qed
qed

lemma template_inj: "template i = template j \<Longrightarrow> i = j"
proof -
  assume eq: "template i = template j"
  have ns: "\<And>n m. CHR ''-'' # digits n \<noteq> digits m"
    using digits_no_sign by (metis list.set_intros(1))
  show ?thesis
  proof (cases "i < 0")
    case ni: True
    show ?thesis
    proof (cases "j < 0")
      case True
      with ni eq have "nat (- i) = nat (- j)" by (simp add: template_def digits_inj)
      with ni True show ?thesis by simp
    next
      case False
      with ni eq ns show ?thesis by (simp add: template_def)
    qed
  next
    case pi: False
    show ?thesis
    proof (cases "j < 0")
      case True
      with pi eq ns [of "nat (- j)" "nat i"] show ?thesis by (simp add: template_def)
    next
      case False
      with pi eq have "nat i = nat j" by (simp add: template_def digits_inj)
      with pi False show ?thesis by simp
    qed
  qed
qed

section \<open>The sliding-window limiter\<close>

lemma length_update_ge: "length z \<le> length (AList.update k v z)"
  by (induction z) auto

lemma set_update_subset: "set (AList.update k v z) \<subseteq> insert (k, v) (set z)"
  by (induction z) auto

lemma member_update: "(k, v) \<in> set (AList.update k v z)"
  by (induction z) auto

lemma map_of_filter_update:
  "P (k, v) \<Longrightarrow> map_of (filter P (AList.update k v z)) k = Some v"
  by (induction z) auto

lemma not_aged_now: "\<not> aged_out now (m, now)"
  by (simp add: aged_out_def WINDOW_MS_def)

lemma sliding_throwing:
  "link r = Throwing \<Longrightarrow>
   slidingRateLimiter now a r = (Next [], [''Sliding limiter degraded, allowing request''], r)"
  by (simp add: slidingRateLimiter_def)

lemma sliding_failing:
  "link r = Failing \<Longrightarrow>
   slidingRateLimiter now a r =
     (Next [(''X-RateLimit-Limit'', Num MAX_REQUESTS), (''X-RateLimit-Remaining'', NaN)], [], r)"
  by (simp add: slidingRateLimiter_def)

lemma sliding_link:
  "link (snd (snd (slidingRateLimiter now a r))) = link r"
  by (simp add: slidingRateLimiter_def Let_def zadd_def zremrangebyscore_def expire_def)

text \<open>The sorted set of the client after a request: the entry is put in, then the old ones go.\<close>

lemma sliding_store:
  "link r = Up \<Longrightarrow>
   zsets (snd (snd (slidingRateLimiter now a r))) (sliding_key a) =
     filter (\<lambda>entry. \<not> aged_out now entry) (AList.update (template now) now (zsets r (sliding_key a)))"
  by (simp add: slidingRateLimiter_def Let_def zadd_def zremrangebyscore_def expire_def aged_out_def
      case_prod_unfold)

lemma sliding_count:
  "link r = Up \<Longrightarrow>
   recorded_count now a r = zcard (sliding_key a) (snd (snd (slidingRateLimiter now a r)))"
  by (simp add: recorded_count_def slidingRateLimiter_def Let_def zadd_def zremrangebyscore_def
      expire_def zcard_def)

text \<open>The admission rule of the sliding window: rejected exactly when the count is above 5.\<close>

lemma sliding_rejected_iff:
  "link r = Up \<Longrightarrow>
   rejected (fst (slidingRateLimiter now a r)) \<longleftrightarrow> MAX_REQUESTS < recorded_count now a r"
  by (simp add: recorded_count_def slidingRateLimiter_def Let_def rejected_def)

lemma sliding_admitted_iff:
  "link r = Up \<Longrightarrow>
   (\<exists>hdrs. fst (slidingRateLimiter now a r) = Next hdrs) \<longleftrightarrow> recorded_count now a r \<le> MAX_REQUESTS"
  by (auto simp add: recorded_count_def slidingRateLimiter_def Let_def)

text \<open>
  A second request of the same client with the same reading of the clock changes
  nothing in the sorted set and is given the same count as the first: its member is the
  member of the first.
\<close>

lemma same_now_overwrites:
  assumes "link r = Up"
  shows "zsets (snd (snd (slidingRateLimiter now a (snd (snd (slidingRateLimiter now a r)))))) (sliding_key a)
           = zsets (snd (snd (slidingRateLimiter now a r))) (sliding_key a)"
    and "recorded_count now a (snd (snd (slidingRateLimiter now a r))) = recorded_count now a r"
proof -
  let ?r1 = "snd (snd (slidingRateLimiter now a r))"
  let ?P = "\<lambda>entry. \<not> aged_out now entry"
  let ?z1 = "filter ?P (AList.update (template now) now (zsets r (sliding_key a)))"
  have up1: "link ?r1 = Up" using assms by (simp add: sliding_link)
  have z1: "zsets ?r1 (sliding_key a) = ?z1" using assms by (rule sliding_store)
  have "map_of ?z1 (template now) = Some now"
    by (rule map_of_filter_update) (rule not_aged_now)
  then have "AList.update (template now) now ?z1 = ?z1" by (rule update_triv)
  then have "filter ?P (AList.update (template now) now ?z1) = ?z1" by simp
  with z1 show st: "zsets (snd (snd (slidingRateLimiter now a ?r1))) (sliding_key a) = zsets ?r1 (sliding_key a)"
    using sliding_store [OF up1, of now a] by simp
  show "recorded_count now a ?r1 = recorded_count now a r"
    using st assms up1 by (simp add: sliding_count zcard_def)
qed

text \<open>
  C3, evaluated. Two requests of client 1.2.3.4, both at 1000 ms, on the empty store:
  each is told that 4 requests remain, and the sorted set holds the single entry
  \<open>(''1000'', 1000)\<close> afterwards.
\<close>

theorem same_millisecond_entries_collide:
  "fst (sliding_run [1000, 1000] ''1.2.3.4'' empty_store) =
     [Next [(''X-RateLimit-Limit'', Num 5), (''X-RateLimit-Remaining'', Num 4)],
      Next [(''X-RateLimit-Limit'', Num 5), (''X-RateLimit-Remaining'', Num 4)]] \<and>
   zsets (snd (sliding_run [1000, 1000] ''1.2.3.4'' empty_store)) (sliding_key ''1.2.3.4'') =
     [(''1000'', 1000)]"
  by code_simp

text \<open>
  One more request on a sorted set that holds more than 5 entries, none of them old
  enough to be removed: it is rejected, the set does not shrink, and it gains at most
  the entry of the request.
\<close>

lemma sliding_step_keeps:
  assumes up: "link r = Up"
    and full: "MAX_REQUESTS < zcard (sliding_key a) r"
    and fresh: "\<forall>entry \<in> set (zsets r (sliding_key a)). \<not> aged_out now entry"
  shows "rejected (fst (slidingRateLimiter now a r))"
    and "zcard (sliding_key a) r \<le> zcard (sliding_key a) (snd (snd (slidingRateLimiter now a r)))"
    and "set (zsets (snd (snd (slidingRateLimiter now a r))) (sliding_key a))
           \<subseteq> insert (template now, now) (set (zsets r (sliding_key a)))"
proof -
  let ?key = "sliding_key a"
  let ?z = "AList.update (template now) now (zsets r ?key)"
  have "\<forall>entry \<in> set ?z. \<not> aged_out now entry"
    using fresh set_update_subset [of "template now" now "zsets r ?key"] not_aged_now by auto
  then have same: "filter (\<lambda>entry. \<not> aged_out now entry) ?z = ?z" by simp
  have st: "zsets (snd (snd (slidingRateLimiter now a r))) ?key = ?z"
    using up same by (simp add: sliding_store)
  show le: "zcard ?key r \<le> zcard ?key (snd (snd (slidingRateLimiter now a r)))"
    using st length_update_ge [of "zsets r ?key" "template now" now] by (simp add: zcard_def)
  show "rejected (fst (slidingRateLimiter now a r))"
    using up full le by (simp add: sliding_rejected_iff sliding_count)
  show "set (zsets (snd (snd (slidingRateLimiter now a r))) ?key)
           \<subseteq> insert (template now, now) (set (zsets r ?key))"
    using st set_update_subset [of "template now" now "zsets r ?key"] by simp
qed

lemma sliding_run_keeps:
  assumes "link r = Up"
    and "MAX_REQUESTS < zcard (sliding_key a) r"
    and "\<forall>t \<in> set ts. \<forall>entry \<in> set (zsets r (sliding_key a)). \<not> aged_out t entry"
    and "\<forall>t \<in> set ts. \<forall>t' \<in> set ts. t - WINDOW_MS < t'"
  shows "(\<forall>m \<in> set (fst (sliding_run ts a r)). rejected m) \<and>
         zcard (sliding_key a) r \<le> zcard (sliding_key a) (snd (sliding_run ts a r))"
  using assms
proof (induction ts arbitrary: r)
  case Nil
  then show ?case by simp
next
  case (Cons t ts)
  let ?key = "sliding_key a"
  let ?r1 = "snd (snd (slidingRateLimiter t a r))"
  have fresh: "\<forall>entry \<in> set (zsets r ?key). \<not> aged_out t entry"
    using Cons.prems(3) by simp
  note step = sliding_step_keeps [OF Cons.prems(1) Cons.prems(2) fresh]
  have up1: "link ?r1 = Up" using Cons.prems(1) by (simp add: sliding_link)
  have full1: "MAX_REQUESTS < zcard ?key ?r1" using step(2) Cons.prems(2) by simp
  have fresh1: "\<forall>u \<in> set ts. \<forall>entry \<in> set (zsets ?r1 ?key). \<not> aged_out u entry"
  proof (intro ballI)
    fix u entry
    assume u: "u \<in> set ts" and en: "entry \<in> set (zsets ?r1 ?key)"
    from en step(3) have "entry = (template t, t) \<or> entry \<in> set (zsets r ?key)" by auto
    then show "\<not> aged_out u entry"
    proof
      assume "entry = (template t, t)"
      moreover have "u - WINDOW_MS < t" using Cons.prems(4) u by simp
      ultimately show ?thesis by (simp add: aged_out_def)
    next
      assume "entry \<in> set (zsets r ?key)"
      then show ?thesis using Cons.prems(3) u by simp
    qed
  qed
  have near1: "\<forall>u \<in> set ts. \<forall>t' \<in> set ts. u - WINDOW_MS < t'" using Cons.prems(4) by simp
  have ih: "(\<forall>m \<in> set (fst (sliding_run ts a ?r1)). rejected m) \<and>
         zcard ?key ?r1 \<le> zcard ?key (snd (sliding_run ts a ?r1))"
    by (rule Cons.IH [OF up1 full1 fresh1 near1])
  show ?case using ih step(1) step(2)
    by (simp add: case_prod_unfold Let_def)
qed

text \<open>
  C10. With the store up, the entry of the request is in the sorted set after
  the evaluation, admitted or rejected, and the decision is taken on the size of that
  very set: rejected exactly when it holds more than 5 entries. So when the set of a
  client already holds more than 5 entries, any further requests \<open>ts\<close> that come
  while none of these entries and none of their own is old enough to be removed are
  all rejected, and the set is no smaller afterwards.
\<close>

theorem rejected_requests_stay_recorded:
  assumes up: "link r = Up"
  shows "(template now, now) \<in> set (zsets (snd (snd (slidingRateLimiter now a r))) (sliding_key a)) \<and>
         (rejected (fst (slidingRateLimiter now a r)) \<longleftrightarrow>
            MAX_REQUESTS < zcard (sliding_key a) (snd (snd (slidingRateLimiter now a r)))) \<and>
         (MAX_REQUESTS < zcard (sliding_key a) r \<longrightarrow>
          (\<forall>t \<in> set ts. \<forall>entry \<in> set (zsets r (sliding_key a)). \<not> aged_out t entry) \<longrightarrow>
          (\<forall>t \<in> set ts. \<forall>t' \<in> set ts. t - WINDOW_MS < t') \<longrightarrow>
            (\<forall>m \<in> set (fst (sliding_run ts a r)). rejected m) \<and>
            zcard (sliding_key a) r \<le> zcard (sliding_key a) (snd (sliding_run ts a r)))"
proof -
  have rec: "(template now, now) \<in> set (zsets (snd (snd (slidingRateLimiter now a r))) (sliding_key a))"
    using up by (simp add: sliding_store member_update not_aged_now)
  have dec: "rejected (fst (slidingRateLimiter now a r)) \<longleftrightarrow>
            MAX_REQUESTS < zcard (sliding_key a) (snd (snd (slidingRateLimiter now a r)))"
    using up by (simp add: sliding_rejected_iff sliding_count)
  from rec dec sliding_run_keeps [OF up, of a ts] show ?thesis by blast
qed

theorem rejected_requests_stay_recorded_witness:
  "link six_recorded = Up \<and>
   MAX_REQUESTS < zcard (sliding_key ''1.2.3.4'') six_recorded \<and>
   list_all (\<lambda>t. list_all (\<lambda>entry. \<not> aged_out t entry) (zsets six_recorded (sliding_key ''1.2.3.4''))) [7, 8] \<and>
   list_all (\<lambda>t. list_all (\<lambda>t'. t - WINDOW_MS < t') [7, 8]) [7, 8] \<and>
   (template 7, 7) \<in> set (zsets (snd (snd (slidingRateLimiter 7 ''1.2.3.4'' six_recorded))) (sliding_key ''1.2.3.4'')) \<and>
   rejected (fst (slidingRateLimiter 7 ''1.2.3.4'' six_recorded)) \<and>
   list_all rejected (fst (sliding_run [7, 8] ''1.2.3.4'' six_recorded)) \<and>
   zcard (sliding_key ''1.2.3.4'') six_recorded
     \<le> zcard (sliding_key ''1.2.3.4'') (snd (sliding_run [7, 8] ''1.2.3.4'' six_recorded))"
proof -
  have up: "link six_recorded = Up" by code_simp
  have full: "MAX_REQUESTS < zcard (sliding_key ''1.2.3.4'') six_recorded" by code_simp
  have fresh: "\<forall>t \<in> set [7, 8]. \<forall>entry \<in> set (zsets six_recorded (sliding_key ''1.2.3.4'')). \<not> aged_out t entry"
    by code_simp
  have near: "\<forall>t \<in> set [7, 8]. \<forall>t' \<in> set [7, 8]. t - WINDOW_MS < t'"
    by (simp add: WINDOW_MS_def)
  have count: "MAX_REQUESTS < zcard (sliding_key ''1.2.3.4'') (snd (snd (slidingRateLimiter 7 ''1.2.3.4'' six_recorded)))"
    by code_simp
  from rejected_requests_stay_recorded [OF up, of 7 "''1.2.3.4''" "[7, 8]"] full fresh near count
  have "(template 7, 7) \<in> set (zsets (snd (snd (slidingRateLimiter 7 ''1.2.3.4'' six_recorded))) (sliding_key ''1.2.3.4'')) \<and>
        rejected (fst (slidingRateLimiter 7 ''1.2.3.4'' six_recorded)) \<and>
        (\<forall>m \<in> set (fst (sliding_run [7, 8] ''1.2.3.4'' six_recorded)). rejected m) \<and>
        zcard (sliding_key ''1.2.3.4'') six_recorded
          \<le> zcard (sliding_key ''1.2.3.4'') (snd (sliding_run [7, 8] ''1.2.3.4'' six_recorded))"
    by blast
  with up full fresh near show ?thesis
    unfolding list_all_iff by blast
qed

section \<open>The fixed-window limiter and the tie-break\<close>

lemma fixed_down:
  "link r \<noteq> Up \<Longrightarrow>
   rateLimiter a r = (Next [], [''Rate limiter degraded, allowing request''], r)"
  by (simp add: rateLimiter_def)

lemma fixed_rejected_iff:
  "link r = Up \<Longrightarrow>
   rejected (fst (rateLimiter a r)) \<longleftrightarrow> MAX_REQUESTS < fst (incr (fixed_key a) r)"
  by (simp add: rateLimiter_def Let_def rejected_def case_prod_unfold)

lemma fixed_admitted_iff:
  "link r = Up \<Longrightarrow>
   (\<exists>hdrs. fst (rateLimiter a r) = Next hdrs) \<longleftrightarrow> fst (incr (fixed_key a) r) \<le> MAX_REQUESTS"
  by (auto simp add: rateLimiter_def Let_def case_prod_unfold)

lemma fixed_step:
  "link r = Up \<Longrightarrow> link (snd (snd (rateLimiter a r))) = Up \<and>
     counters (snd (snd (rateLimiter a r))) (fixed_key a) = counters r (fixed_key a) + 1 \<and>
     fst (incr (fixed_key a) r) = counters r (fixed_key a) + 1"
  by (simp add: rateLimiter_def Let_def case_prod_unfold incr_def expire_def)

lemma fixed_run_rejections:
  "link r = Up \<Longrightarrow>
   map rejected (fst (fixed_run n a r)) =
     map (\<lambda>i. MAX_REQUESTS < counters r (fixed_key a) + 1 + int i) [0..<n]"
proof (induction n arbitrary: r)
  case 0
  then show ?case by simp
next
  case (Suc n)
  let ?r1 = "snd (snd (rateLimiter a r))"
  note st = fixed_step [OF Suc.prems, of a]
  have ih: "map rejected (fst (fixed_run n a ?r1)) =
     map (\<lambda>i. MAX_REQUESTS < counters ?r1 (fixed_key a) + 1 + int i) [0..<n]"
    using st by (intro Suc.IH) simp
  have hd: "rejected (fst (rateLimiter a r)) \<longleftrightarrow> MAX_REQUESTS < counters r (fixed_key a) + 1"
    using Suc.prems st by (simp add: fixed_rejected_iff)
  have "[0..<Suc n] = 0 # map Suc [0..<n]"
    by (simp add: upt_conv_Cons map_Suc_upt del: upt_Suc)
  then show ?case using ih hd st
    by (simp add: case_prod_unfold Let_def comp_def add.assoc del: upt_Suc)
qed

text \<open>
  The sliding window on requests whose clock readings all differ: when the sorted set
  of the client holds the entries of the readings \<open>us\<close>, and the requests come at
  the readings \<open>ts\<close>, all of \<open>us\<close> and \<open>ts\<close> different and less than one
  window apart, the request number \<open>i\<close> (from 0) is counted
  \<open>length us + 1 + i\<close> and rejected exactly when that is above 5.
\<close>

lemma update_absent: "k \<notin> fst ` set z \<Longrightarrow> AList.update k v z = z @ [(k, v)]"
  by (induction z) auto

lemma sliding_run_apart:
  assumes "link r = Up"
    and "zsets r (sliding_key a) = map entry_of us"
    and "distinct (us @ ts)"
    and "\<forall>t \<in> set (us @ ts). \<forall>t' \<in> set (us @ ts). t - WINDOW_MS < t'"
  shows "map rejected (fst (sliding_run ts a r)) =
           map (\<lambda>i. MAX_REQUESTS < int (length us) + 1 + int i) [0..<length ts]"
  using assms
proof (induction ts arbitrary: r us)
  case Nil
  then show ?case by simp
next
  case (Cons t ts)
  let ?key = "sliding_key a"
  let ?r1 = "snd (snd (slidingRateLimiter t a r))"
  have absent: "template t \<notin> fst ` set (map entry_of us)"
    using Cons.prems(3) by (auto simp add: entry_of_def dest: template_inj)
  have upd: "AList.update (template t) t (zsets r ?key) = map entry_of (us @ [t])"
    using absent Cons.prems(2) by (simp add: update_absent entry_of_def)
  have "\<forall>entry \<in> set (map entry_of (us @ [t])). \<not> aged_out t entry"
  proof
    fix entry
    assume "entry \<in> set (map entry_of (us @ [t]))"
    then obtain u where u: "u \<in> set (us @ [t])" and e: "entry = entry_of u" by auto
    from u have "u \<in> set (us @ t # ts)" by auto
    moreover have "t \<in> set (us @ t # ts)" by simp
    ultimately have "t - WINDOW_MS < u" using Cons.prems(4) by blast
    with e show "\<not> aged_out t entry" by (simp add: aged_out_def entry_of_def)
  qed
  then have keep: "filter (\<lambda>entry. \<not> aged_out t entry) (map entry_of (us @ [t])) = map entry_of (us @ [t])"
    by (simp only: filter_True)
  have st: "zsets ?r1 ?key = map entry_of (us @ [t])"
    using Cons.prems(1) upd keep by (simp only: sliding_store)
  have up1: "link ?r1 = Up" using Cons.prems(1) by (simp add: sliding_link)
  have cnt: "recorded_count t a r = int (length us) + 1"
    using Cons.prems(1) st by (simp add: sliding_count zcard_def)
  have hd: "rejected (fst (slidingRateLimiter t a r)) \<longleftrightarrow> MAX_REQUESTS < int (length us) + 1"
    using Cons.prems(1) cnt by (simp add: sliding_rejected_iff)
  have d1: "distinct ((us @ [t]) @ ts)" using Cons.prems(3) by simp
  have n1: "\<forall>u \<in> set ((us @ [t]) @ ts). \<forall>t' \<in> set ((us @ [t]) @ ts). u - WINDOW_MS < t'"
    using Cons.prems(4) by simp
  have ih: "map rejected (fst (sliding_run ts a ?r1)) =
           map (\<lambda>i. MAX_REQUESTS < int (length (us @ [t])) + 1 + int i) [0..<length ts]"
    by (rule Cons.IH [OF up1 st d1 n1])
  have "[0..<length (t # ts)] = 0 # map Suc [0..<length ts]"
    by (simp add: upt_conv_Cons map_Suc_upt del: upt_Suc)
  then show ?case using ih hd
    by (auto simp add: case_prod_unfold Let_def comp_def algebra_simps simp del: upt_Suc)
qed

text \<open>
  Both variants reject exactly when the count is above 5 (\<open>sliding_rejected_iff\<close>,
  \<open>fixed_rejected_iff\<close>): a request that brings the count to 5 is admitted. With the
  fixed window, and with the sliding window when the clock readings differ, six
  requests get one rejection, the sixth.
\<close>

lemma fixed_six_requests:
  "map rejected (fst (fixed_run 6 ''1.2.3.4'' empty_store)) = [False, False, False, False, False, True]"
  by code_simp

lemma sliding_six_requests_apart:
  "map rejected (fst (sliding_run [1, 2, 3, 4, 5, 6] ''1.2.3.4'' empty_store)) =
     [False, False, False, False, False, True]"
  by code_simp

text \<open>
  C6, evaluated. Six requests of client 1.2.3.4 within one window, all at 1000 ms, on
  the empty store: the sliding-window limiter rejects none of them, and the sixth is
  told, like the others, that 4 requests remain.
\<close>

theorem six_requests_in_one_millisecond_all_admitted:
  "map rejected (fst (sliding_run [1000, 1000, 1000, 1000, 1000, 1000] ''1.2.3.4'' empty_store)) =
     [False, False, False, False, False, False] \<and>
   last (fst (sliding_run [1000, 1000, 1000, 1000, 1000, 1000] ''1.2.3.4'' empty_store)) =
     Next [(''X-RateLimit-Limit'', Num 5), (''X-RateLimit-Remaining'', Num 4)]"
  by code_simp

section \<open>The application\<close>

lemma call_slow_status:
  "status (fst (call_slow now hdrs s)) \<in> {200, 503, 504}"
  by (cases s) (auto simp add: call_slow_def circuit_open_response_def Let_def split: prod.splits sum.splits)

lemma dispatch_status: "status (fst (dispatch req hdrs g)) \<noteq> 429"
proof (cases "path req")
  case Health
  then show ?thesis by (simp add: dispatch_def health_def)
next
  case CallSlow
  have "status (fst (call_slow (at_route req) hdrs (breaker_state g, world g))) \<in> {200, 503, 504}"
    by (rule call_slow_status)
  with CallSlow show ?thesis by (auto simp add: dispatch_def case_prod_unfold Let_def)
qed

lemma call_slow_success:
  "\<not> circuitOpen b \<Longrightarrow> upstream e (attempts e) = Inr v \<Longrightarrow>
   fst (call_slow now hdrs (b, e)) = \<lparr>status = 200, headers = hdrs, body = v\<rparr>"
  by (simp add: call_slow_def first_attempt_succeeds)

text \<open>
  When the store fails, whichever way the client reports it, the sliding-window limiter
  sends nothing and leaves the store as it is, and the application answers what the
  route answers: never 429, the liveness body with 200 on \<^verbatim>\<open>/health\<close>, and on
  \<^verbatim>\<open>/call-slow\<close>, with the breaker closed and the slow service answering, 200 with
  the payload.
\<close>

lemma sliding_down:
  assumes "link r \<noteq> Up"
  shows "\<exists>hdrs lines. slidingRateLimiter now a r = (Next hdrs, lines, r)"
proof (cases "link r")
  case Up
  with assms show ?thesis by simp
next
  case Failing
  then show ?thesis by (simp add: sliding_failing)
next
  case Throwing
  then show ?thesis by (simp add: sliding_throwing)
qed

lemma app_down:
  assumes "link (store g) \<noteq> Up"
  shows "\<exists>hdrs lines. app req g =
           dispatch req hdrs (g\<lparr>world := (world g)\<lparr>console := console (world g) @ lines\<rparr>\<rparr>)"
proof -
  from sliding_down [OF assms, of "at_limiter req" "ip req"]
  obtain hdrs lines where
    "slidingRateLimiter (at_limiter req) (ip req) (store g) = (Next hdrs, lines, store g)"
    by blast
  then have "app req g =
           dispatch req hdrs (g\<lparr>world := (world g)\<lparr>console := console (world g) @ lines\<rparr>\<rparr>)"
    by (simp add: app_def)
  then show ?thesis by blast
qed

lemma store_failure_never_blocks:
  assumes down: "link (store g) \<noteq> Up"
  shows "\<not> rejected (fst (slidingRateLimiter now a (store g)))"
    and "snd (snd (slidingRateLimiter now a (store g))) = store g"
    and "status (fst (app req g)) \<noteq> 429"
    and "path req = Health \<longrightarrow>
           status (fst (app req g)) = 200 \<and>
           body (fst (app req g)) = JObject [(''status'', JString ''gateway-up'')]"
    and "path req = CallSlow \<longrightarrow> \<not> circuitOpen (breaker_state g) \<longrightarrow>
           upstream (world g) (attempts (world g)) = Inr v \<longrightarrow>
           status (fst (app req g)) = 200 \<and> body (fst (app req g)) = v"
proof -
  from sliding_down [OF down, of now a] obtain hdrs lines where
    sl: "slidingRateLimiter now a (store g) = (Next hdrs, lines, store g)" by blast
  from sl show "\<not> rejected (fst (slidingRateLimiter now a (store g)))"
    by (simp add: rejected_def)
  from sl show "snd (snd (slidingRateLimiter now a (store g))) = store g" by simp
  from app_down [OF down, of req] obtain hs ls where
    eq: "app req g = dispatch req hs (g\<lparr>world := (world g)\<lparr>console := console (world g) @ ls\<rparr>\<rparr>)"
    by blast
  show "status (fst (app req g)) \<noteq> 429" unfolding eq by (rule dispatch_status)
  show "path req = Health \<longrightarrow>
           status (fst (app req g)) = 200 \<and>
           body (fst (app req g)) = JObject [(''status'', JString ''gateway-up'')]"
    unfolding eq by (simp add: dispatch_def health_def)
  show "path req = CallSlow \<longrightarrow> \<not> circuitOpen (breaker_state g) \<longrightarrow>
           upstream (world g) (attempts (world g)) = Inr v \<longrightarrow>
           status (fst (app req g)) = 200 \<and> body (fst (app req g)) = v"
    unfolding eq by (simp add: dispatch_def case_prod_unfold call_slow_success Let_def)
qed

text \<open>
  C7, evaluated. The store fails and a client asks for \<^verbatim>\<open>/health\<close> at 1000 ms. The
  pipeline resolves with error pairs, so the count is \<^verbatim>\<open>undefined\<close>: the limiter
  sets the headers \<^verbatim>\<open>X-RateLimit-Limit: 5\<close> and \<^verbatim>\<open>X-RateLimit-Remaining: NaN\<close>, calls
  \<^verbatim>\<open>next()\<close> from the try block and writes nothing to the console. The request is
  answered 200 with these headers and the console of the gateway stays empty. The
  fixed-window limiter on the same store lands in its catch block and writes its line.
\<close>

theorem failing_store_is_not_logged:
  "link (store degraded_gateway) = Failing \<and>
   fst (slidingRateLimiter 1000 ''1.2.3.4'' (store degraded_gateway)) =
     Next [(''X-RateLimit-Limit'', Num 5), (''X-RateLimit-Remaining'', NaN)] \<and>
   fst (snd (slidingRateLimiter 1000 ''1.2.3.4'' (store degraded_gateway))) = [] \<and>
   fst (app (health_at 1000) degraded_gateway) =
     \<lparr>status = 200,
      headers = [(''X-RateLimit-Limit'', Num 5), (''X-RateLimit-Remaining'', NaN)],
      body = JObject [(''status'', JString ''gateway-up'')]\<rparr> \<and>
   console (world degraded_gateway) = [] \<and>
   console (world (snd (app (health_at 1000) degraded_gateway))) = [] \<and>
   fst (snd (rateLimiter ''1.2.3.4'' (store degraded_gateway))) =
     [''Rate limiter degraded, allowing request'']"
  by code_simp

text \<open>
  C2, as the code has it. The limiter is registered before every route, \<^verbatim>\<open>/health\<close>
  included. A request to \<^verbatim>\<open>/health\<close> never touches the breaker or the slow service.
  It is answered 429 when the store call of the limiter succeeds and the count it
  returns for the request (\<open>recorded_count\<close>, the reply of \<^verbatim>\<open>ZCARD\<close> in the
  pipeline) is above 5. Otherwise, with a count of at most 5 or a store that fails, it
  is answered 200 with the liveness body.
\<close>

theorem health_behind_limiter:
  assumes "path req = Health"
  shows "breaker_state (snd (app req g)) = breaker_state g \<and>
         attempts (world (snd (app req g))) = attempts (world g) \<and>
         (if link (store g) = Up \<and> MAX_REQUESTS < recorded_count (at_limiter req) (ip req) (store g)
          then status (fst (app req g)) = 429
          else status (fst (app req g)) = 200 \<and>
               body (fst (app req g)) = JObject [(''status'', JString ''gateway-up'')])"
  using assms
  by (auto simp add: app_def dispatch_def health_def recorded_count_def slidingRateLimiter_def Let_def)

theorem health_behind_limiter_witness:
  "path (health_at 7) = Health \<and>
   link (store busy_gateway) = Up \<and>
   MAX_REQUESTS < recorded_count (at_limiter (health_at 7)) (ip (health_at 7)) (store busy_gateway) \<and>
   status (fst (app (health_at 7) busy_gateway)) = 429 \<and>
   breaker_state (snd (app (health_at 7) busy_gateway)) = breaker_state busy_gateway"
proof -
  have h: "path (health_at 7) = Health" by (simp add: health_at_def)
  have up: "link (store busy_gateway) = Up" by code_simp
  have full: "MAX_REQUESTS < recorded_count (at_limiter (health_at 7)) (ip (health_at 7)) (store busy_gateway)"
    by code_simp
  from health_behind_limiter [OF h, of busy_gateway] show ?thesis
    using h up full by simp
qed

text \<open>
  Six requests to \<^verbatim>\<open>/health\<close> from one client at 1, 2, ..., 6 ms, on a fresh gateway:
  the sixth is answered 429.
\<close>

theorem sixth_health_request_is_limited:
  "map status (fst (serve (map health_at [1, 2, 3, 4, 5, 6]) (fresh_gateway (always (Inr slow_response))))) =
     [200, 200, 200, 200, 200, 429]"
  by code_simp

end
